theory Spec2Isabelle
  imports Main
begin

section \<open>Python string primitives used by the CoNLL reader\<close>

text \<open>
  Python strings are modelled as \<^typ>\<open>string\<close>, one \<^typ>\<open>char\<close> per code point, so the
  model covers input whose code points are below 256. The white space of \<open>str.strip\<close>,
  \<open>str.split\<close> and \<open>int\<close> is the set of code points for which \<open>str.isspace\<close> holds.
\<close>

definition is_space :: "char \<Rightarrow> bool" where
  "is_space c = (c \<in> set [CHR 0x09, CHR 0x0A, CHR 0x0B, CHR 0x0C, CHR 0x0D,
                           CHR 0x1C, CHR 0x1D, CHR 0x1E, CHR 0x1F, CHR 0x20,
                           CHR 0x85, CHR 0xA0])"

definition py_strip :: "string \<Rightarrow> string" where
  "py_strip s = rev (dropWhile is_space (rev (dropWhile is_space s)))"

text \<open>\<open>s.split()\<close>: the maximal runs of characters that are not white space.\<close>

fun split_aux :: "string \<Rightarrow> string \<Rightarrow> string list" where
  "split_aux cur [] = (if cur = [] then [] else [cur])"
| "split_aux cur (c # cs) =
     (if is_space c then (if cur = [] then split_aux [] cs else cur # split_aux [] cs)
      else split_aux (cur @ [c]) cs)"

definition py_split :: "string \<Rightarrow> string list" where
  "py_split s = split_aux [] s"

text \<open>\<open>s.split(sep)\<close> for a one-character separator: empty pieces are kept.\<close>

fun split_on :: "char \<Rightarrow> string \<Rightarrow> string list" where
  "split_on sep [] = [[]]"
| "split_on sep (c # cs) =
     (if c = sep then [] # split_on sep cs
      else (case split_on sep cs of [] \<Rightarrow> [[c]] | p # ps \<Rightarrow> (c # p) # ps))"

definition startswith :: "string \<Rightarrow> string \<Rightarrow> bool" where
  "startswith s p = (take (length p) s = p)"

definition endswith :: "string \<Rightarrow> string \<Rightarrow> bool" where
  "endswith s p = (drop (length s - length p) s = p)"

text \<open>
  \<open>int(s)\<close> in base ten: white space around, an optional sign, then decimal digits in
  which single underscores may separate digits. \<open>None\<close> stands for the \<open>ValueError\<close>.
\<close>

definition is_digit :: "char \<Rightarrow> bool" where
  "is_digit c = (c \<in> set ''0123456789'')"

definition digit_val :: "char \<Rightarrow> nat" where
  "digit_val c = of_char c - 48"

fun parse_digits :: "nat \<Rightarrow> string \<Rightarrow> nat option" where
  "parse_digits acc [] = Some acc"
| "parse_digits acc [c] = (if is_digit c then Some (10 * acc + digit_val c) else None)"
| "parse_digits acc (c # d # ds) =
     (if is_digit c then parse_digits (10 * acc + digit_val c) (d # ds)
      else if c = CHR ''_'' \<and> is_digit d then parse_digits (10 * acc + digit_val d) ds
      else None)"

definition parse_nat :: "string \<Rightarrow> nat option" where
  "parse_nat s = (case s of [] \<Rightarrow> None
                  | c # cs \<Rightarrow> if is_digit c then parse_digits (digit_val c) cs else None)"

definition py_int :: "string \<Rightarrow> int option" where
  "py_int s = (case py_strip s of
                 [] \<Rightarrow> None
               | c # cs \<Rightarrow>
                   if c = CHR ''+'' then map_option int (parse_nat cs)
                   else if c = CHR ''-'' then map_option (\<lambda>n. - int n) (parse_nat cs)
                   else map_option int (parse_nat (c # cs)))"

section \<open>Errors\<close>

datatype ConllChunk =
    BeginDocument string
  | EndDocument
  | EndFile
  | Segment "string list"

datatype error =
    IndexError
  | ValueError
  | StopIteration
  | AttributeError
  | RuntimeError
  | UnexpectedChunk ConllChunk

text \<open>\<open>xs[i]\<close> for \<open>i \<ge> 0\<close> and \<open>xs[-1]\<close>, raising \<open>IndexError\<close> out of range.\<close>

definition index :: "'a list \<Rightarrow> nat \<Rightarrow> error + 'a" where
  "index xs i = (if i < length xs then Inr (xs ! i) else Inl IndexError)"

definition index_last :: "'a list \<Rightarrow> error + 'a" where
  "index_last xs = (case xs of [] \<Rightarrow> Inl IndexError | _ \<Rightarrow> Inr (last xs))"

section \<open>lang.py\<close>

record Sentence =
  tokens :: "string list"
  references :: "(int \<times> int \<times> int) list"

record Document =
  doc_id :: string
  doc_tokens :: "string list list"
  mentions :: "(int \<times> int \<times> int) list list"

definition normalize_token :: "string \<Rightarrow> string" where
  "normalize_token tok =
     (if tok = ''-LRB-'' then ''(''
      else if tok = ''-RRB-'' then '')''
      else tok)"

fun normalize_tokens :: "string list \<Rightarrow> string list" where
  "normalize_tokens [] = []"
| "normalize_tokens (tok # toks) = normalize_token tok # normalize_tokens toks"

definition mk_Sentence :: "string list \<Rightarrow> (int \<times> int \<times> int) list \<Rightarrow> Sentence" where
  "mk_Sentence toks refs = \<lparr>tokens = normalize_tokens toks, references = refs\<rparr>"

section \<open>conll.py: the chunk types\<close>

fun conll_type :: "ConllChunk \<Rightarrow> string" where
  "conll_type (BeginDocument d) = ''begin''"
| "conll_type EndDocument = ''end''"
| "conll_type EndFile = ''eof''"
| "conll_type (Segment ls) = ''segment''"

section \<open>conll.py: \<open>read_conll_chunk\<close>\<close>

text \<open>
  The open file handle is the list of the lines not yet read. \<open>readline\<close> returns the
  empty string at the end of the file and the next line otherwise.
\<close>

definition readline :: "string list \<Rightarrow> string \<times> string list" where
  "readline s = (case s of [] \<Rightarrow> ([], []) | l # r \<Rightarrow> (l, r))"

text \<open>
  The loop \<open>for line in inhandle\<close> of a segment: it stops at the end of the file or after
  reading a blank line, and appends the stripped line otherwise.
\<close>

fun read_segment_lines :: "string list \<Rightarrow> string list \<times> string list" where
  "read_segment_lines [] = ([], [])"
| "read_segment_lines (line # r) =
     (if py_strip line = [] then ([], r)
      else (case read_segment_lines r of (ls, r') \<Rightarrow> (py_strip line # ls, r')))"

definition read_conll_chunk :: "string list \<Rightarrow> ConllChunk \<times> string list" where
  "read_conll_chunk s =
     (case readline s of (firstline, r) \<Rightarrow>
        if py_strip firstline = [] then (EndFile, r)
        else if startswith firstline ''#begin document''
          then (BeginDocument (py_strip (drop (length ''#begin document'') firstline)), r)
        else if startswith firstline ''#end document'' then (EndDocument, r)
        else (case read_segment_lines r of (ls, r') \<Rightarrow> (Segment (firstline # ls), r')))"

section \<open>conll.py: \<open>process_conll_sentence\<close>\<close>

type_synonym open_list = "(int \<times> int) list"
type_synonym spans = "(int \<times> int \<times> int) list"

text \<open>
  One pass of the body of \<open>for coref in corefs\<close>. \<open>next(x for x in open_list if x[0] == entity)\<close>
  is \<^const>\<open>find\<close>, raising \<open>StopIteration\<close> when nothing matches; \<open>open_list.remove\<close>
  deletes the first element equal to the pair found, which \<^const>\<open>remove1\<close> does.
\<close>

definition process_coref :: "int \<Rightarrow> open_list \<times> spans \<Rightarrow> string \<Rightarrow> error + open_list \<times> spans" where
  "process_coref word_position st coref =
     (case st of (open_list, spans) \<Rightarrow>
        if startswith coref ''('' \<and> endswith coref '')'' then
          (case py_int (butlast (drop 1 coref)) of
             None \<Rightarrow> Inl ValueError
           | Some entity \<Rightarrow> Inr (open_list, spans @ [(entity, word_position, word_position)]))
        else if startswith coref ''('' then
          (case py_int (drop 1 coref) of
             None \<Rightarrow> Inl ValueError
           | Some entity \<Rightarrow> Inr ((entity, word_position) # open_list, spans))
        else if endswith coref '')'' then
          (case py_int (butlast coref) of
             None \<Rightarrow> Inl ValueError
           | Some entity \<Rightarrow>
               (case find (\<lambda>x. fst x = entity) open_list of
                  None \<Rightarrow> Inl StopIteration
                | Some x \<Rightarrow>
                    Inr (remove1 (entity, snd x) open_list,
                         spans @ [(entity, snd x, word_position)])))
        else Inr (open_list, spans))"

fun process_corefs :: "int \<Rightarrow> open_list \<times> spans \<Rightarrow> string list \<Rightarrow> error + open_list \<times> spans" where
  "process_corefs word_position st [] = Inr st"
| "process_corefs word_position st (coref # corefs) =
     (case process_coref word_position st coref of
        Inl e \<Rightarrow> Inl e
      | Inr st' \<Rightarrow> process_corefs word_position st' corefs)"

text \<open>The three field reads at the head of the loop body: \<open>fields\<close>, \<open>word_position\<close>, \<open>corefs\<close>.\<close>

definition parse_line :: "string \<Rightarrow> error + string list \<times> int \<times> string list" where
  "parse_line line =
     (let flds = py_split line in
      case index flds 2 of
        Inl e \<Rightarrow> Inl e
      | Inr f2 \<Rightarrow>
          (case py_int (py_strip f2) of
             None \<Rightarrow> Inl ValueError
           | Some word_position \<Rightarrow>
               (case index_last flds of
                  Inl e \<Rightarrow> Inl e
                | Inr fl \<Rightarrow> Inr (flds, word_position, split_on (CHR ''|'') (py_strip fl)))))"

text \<open>The body of \<open>for line in sent.lines\<close>, on the state \<open>(tokens, open_list, spans)\<close>.\<close>

definition process_line ::
  "string list \<times> open_list \<times> spans \<Rightarrow> string \<Rightarrow> error + string list \<times> open_list \<times> spans" where
  "process_line st line =
     (case st of (toks, open_list, spans) \<Rightarrow>
        (case parse_line line of
           Inl e \<Rightarrow> Inl e
         | Inr (flds, word_position, corefs) \<Rightarrow>
             (case process_corefs word_position (open_list, spans) corefs of
                Inl e \<Rightarrow> Inl e
              | Inr (open_list', spans') \<Rightarrow>
                  (case index flds 3 of
                     Inl e \<Rightarrow> Inl e
                   | Inr f3 \<Rightarrow> Inr (toks @ [py_strip f3], open_list', spans')))))"

fun process_lines ::
  "string list \<times> open_list \<times> spans \<Rightarrow> string list \<Rightarrow> error + string list \<times> open_list \<times> spans" where
  "process_lines st [] = Inr st"
| "process_lines st (line # ls) =
     (case process_line st line of Inl e \<Rightarrow> Inl e | Inr st' \<Rightarrow> process_lines st' ls)"

text \<open>
  \<open>sent.lines\<close> exists on a \<open>Segment\<close> only. The open-span list is dropped at the
  \<open>return\<close>: the sentence is built from the tokens and the spans.
\<close>

definition process_conll_sentence :: "ConllChunk \<Rightarrow> error + Sentence" where
  "process_conll_sentence sent =
     (case sent of
        Segment ls \<Rightarrow>
          (case process_lines ([], [], []) ls of
             Inl e \<Rightarrow> Inl e
           | Inr (toks, open_list, spans) \<Rightarrow> Inr (mk_Sentence toks spans))
      | _ \<Rightarrow> Inl AttributeError)"

section \<open>conll.py: \<open>read_conll_document\<close>\<close>

text \<open>
  The loop \<open>while nextchunk.conll_type() == 'segment'\<close>, on the state
  \<open>(nextchunk, chunks, inhandle)\<close>.
\<close>

function collect_segments ::
  "ConllChunk \<Rightarrow> ConllChunk list \<Rightarrow> string list \<Rightarrow> ConllChunk \<times> ConllChunk list \<times> string list" where
  "collect_segments nextchunk chunks s =
     (if conll_type nextchunk = ''segment''
      then (case read_conll_chunk s of (c, r) \<Rightarrow> collect_segments c (chunks @ [nextchunk]) r)
      else (nextchunk, chunks, s))"
  by pat_completeness auto
termination
proof (relation "measure (\<lambda>(c, chunks, s). 2 * length s + (if conll_type c = ''segment'' then 1 else 0))")
  show "wf (measure (\<lambda>(c, chunks, s). 2 * length s + (if conll_type c = ''segment'' then 1 else 0)))"
    by simp
next
  fix nextchunk :: ConllChunk and chunks :: "ConllChunk list" and s r :: "string list" and c
  assume seg: "conll_type nextchunk = ''segment''" and rd: "(c, r) = read_conll_chunk s"
  have body: "length (snd (read_segment_lines t)) \<le> length t" for t
    by (induction t) (auto split: prod.splits)
  have le: "length r \<le> length s"
  proof (cases s)
    case Nil
    with rd show ?thesis
      by (simp add: read_conll_chunk_def readline_def py_strip_def)
  next
    case (Cons l t)
    with rd body [of t] show ?thesis
      by (auto simp: read_conll_chunk_def readline_def split: if_splits prod.splits)
  qed
  have lt: "length r < length s" if "conll_type c = ''segment''"
  proof (cases s)
    case Nil
    with rd that show ?thesis
      by (simp add: read_conll_chunk_def readline_def py_strip_def)
  next
    case (Cons l t)
    with rd body [of t] show ?thesis
      by (auto simp: read_conll_chunk_def readline_def split: if_splits prod.splits)
  qed
  show "((c, chunks @ [nextchunk], r), (nextchunk, chunks, s))
          \<in> measure (\<lambda>(c, chunks, s). 2 * length s + (if conll_type c = ''segment'' then 1 else 0))"
    using seg le lt by auto
qed

declare collect_segments.simps [simp del]

text \<open>
  The result is the pair \<open>(doc_id, chunks)\<close>, with \<open>None\<close> for \<open>(None, None)\<close>, and the
  file handle after the reads. \<open>firstchunk.doc_id\<close> is read on a \<open>BeginDocument\<close> only.
\<close>

definition read_conll_document ::
  "string list \<Rightarrow> error + (string \<times> ConllChunk list) option \<times> string list" where
  "read_conll_document s =
     (case read_conll_chunk s of (firstchunk, s1) \<Rightarrow>
        if conll_type firstchunk = ''eof'' then Inr (None, s1)
        else if \<not> conll_type firstchunk = ''begin'' then Inl (UnexpectedChunk firstchunk)
        else (case read_conll_chunk s1 of (nextchunk0, s2) \<Rightarrow>
               (case collect_segments nextchunk0 [] s2 of (nextchunk, chunks, s3) \<Rightarrow>
                  if \<not> conll_type nextchunk = ''end'' then Inl (UnexpectedChunk nextchunk)
                  else (case firstchunk of
                          BeginDocument d \<Rightarrow> Inr (Some (d, chunks), s3)
                        | _ \<Rightarrow> Inl AttributeError))))"

section \<open>conll.py: \<open>read_conll_file\<close>\<close>

text \<open>
  \<open>mentions\<close> is a \<open>defaultdict(list)\<close>: a dictionary that keeps its keys in the order of
  their first insertion, so an association list. \<open>mentions[entity].append(v)\<close> appends to
  the list of a present key and adds a missing key at the end.
\<close>

type_synonym mention = "int \<times> int \<times> int"

fun append_mention :: "(int \<times> mention list) list \<Rightarrow> int \<Rightarrow> mention \<Rightarrow> (int \<times> mention list) list" where
  "append_mention [] entity v = [(entity, [v])]"
| "append_mention ((k, vs) # m) entity v =
     (if k = entity then (k, vs @ [v]) # m else (k, vs) # append_mention m entity v)"

text \<open>The loop over \<open>sent.references\<close> for the sentence of index \<open>i\<close>.\<close>

fun add_references :: "nat \<Rightarrow> (int \<times> int \<times> int) list \<Rightarrow> (int \<times> mention list) list \<Rightarrow> (int \<times> mention list) list" where
  "add_references i [] m = m"
| "add_references i ((entity, start, stop) # refs) m =
     add_references i refs (append_mention m entity (int i, start, stop))"

text \<open>The loop over \<open>enumerate(sents)\<close>, from the index \<open>i\<close> on.\<close>

fun add_sentences :: "nat \<Rightarrow> Sentence list \<Rightarrow> (int \<times> mention list) list \<Rightarrow> (int \<times> mention list) list" where
  "add_sentences i [] m = m"
| "add_sentences i (sent # sents) m =
     add_sentences (Suc i) sents (add_references i (references sent) m)"

definition process_conll_document :: "string \<Rightarrow> Sentence list \<Rightarrow> Document" where
  "process_conll_document d sents =
     (let mentions = add_sentences 0 sents [];
          toks = map tokens sents;
          corefs = map snd mentions
      in \<lparr>doc_id = d, doc_tokens = toks, mentions = corefs\<rparr>)"

text \<open>The list comprehension \<open>[process_conll_sentence(chunk) for chunk in chunks]\<close>.\<close>

fun process_chunks :: "ConllChunk list \<Rightarrow> error + Sentence list" where
  "process_chunks [] = Inr []"
| "process_chunks (chunk # chunks) =
     (case process_conll_sentence chunk of
        Inl e \<Rightarrow> Inl e
      | Inr sent \<Rightarrow>
          (case process_chunks chunks of Inl e \<Rightarrow> Inl e | Inr sents \<Rightarrow> Inr (sent # sents)))"

text \<open>
  The generator, run until it is exhausted or raises: the result is the list of the
  documents yielded and the exception that ended the iteration, if one did. The loop
  \<open>while has_more\<close> has no bound in the source, so the model is a partial function whose
  value \<open>None\<close> means that the loop never ends. A \<open>StopIteration\<close> that reaches the
  frame of a generator leaves it as a \<open>RuntimeError\<close>.
\<close>

definition generator_error :: "error \<Rightarrow> error" where
  "generator_error e = (if e = StopIteration then RuntimeError else e)"

definition push_document :: "Document \<Rightarrow> Document list \<times> error option \<Rightarrow> (Document list \<times> error option) option" where
  "push_document d r = Some (d # fst r, snd r)"

partial_function (option) read_conll_file :: "string list \<Rightarrow> (Document list \<times> error option) option" where
  "read_conll_file inhandle =
     (case read_conll_document inhandle of
        Inl e \<Rightarrow> Some ([], Some (generator_error e))
      | Inr (None, inhandle') \<Rightarrow> Some ([], None)
      | Inr (Some (d, chunks), inhandle') \<Rightarrow>
          (case process_chunks chunks of
             Inl e \<Rightarrow> Some ([], Some (generator_error e))
           | Inr sents \<Rightarrow>
               Option.bind (read_conll_file inhandle')
                 (push_document (process_conll_document d sents))))"

declare read_conll_file.simps [code]


section \<open>Notions used to state the properties\<close>

subsection \<open>The annotation codes of a segment, in reading order\<close>

text \<open>
  The pairs \<open>(word_position, coref)\<close> on which the inner loop of
  \<open>process_conll_sentence\<close> runs: per line, the position read from field 2 with each
  code of the last field.
\<close>

definition line_events :: "string \<Rightarrow> error + (int \<times> string) list" where
  "line_events line =
     (case parse_line line of
        Inl e \<Rightarrow> Inl e
      | Inr (flds, word_position, corefs) \<Rightarrow> Inr (map (Pair word_position) corefs))"

fun segment_events :: "string list \<Rightarrow> error + (int \<times> string) list" where
  "segment_events [] = Inr []"
| "segment_events (line # ls) =
     (case line_events line of
        Inl e \<Rightarrow> Inl e
      | Inr evs \<Rightarrow> (case segment_events ls of Inl e \<Rightarrow> Inl e | Inr evs' \<Rightarrow> Inr (evs @ evs')))"

text \<open>The effect of a run of codes on the open-span list and the spans.\<close>

fun run_corefs :: "(int \<times> string) list \<Rightarrow> open_list \<times> spans \<Rightarrow> error + open_list \<times> spans" where
  "run_corefs [] st = Inr st"
| "run_corefs ((word_position, coref) # evs) st =
     (case process_coref word_position st coref of
        Inl e \<Rightarrow> Inl e
      | Inr st' \<Rightarrow> run_corefs evs st')"

text \<open>
  The shapes of a code, as the branches of \<open>process_conll_sentence\<close> test them: a code
  that starts with a bracket; an opening code \<open>(N\<close> with its entity; a closing code
  \<open>N)\<close> with its entity.
\<close>

definition is_open_code :: "string \<Rightarrow> bool" where
  "is_open_code coref = startswith coref ''(''"

definition code_opens :: "string \<Rightarrow> int option" where
  "code_opens coref =
     (if startswith coref ''('' \<and> \<not> endswith coref '')'' then py_int (drop 1 coref) else None)"

definition code_closes :: "string \<Rightarrow> int option" where
  "code_closes coref =
     (if \<not> startswith coref ''('' \<and> endswith coref '')'' then py_int (butlast coref) else None)"

text \<open>
  The open-span list while the latest open entry of \<open>n\<close> is \<open>(n, p2)\<close> and an older
  entry \<open>(n, p1)\<close> lies behind it.
\<close>

definition newest_open :: "int \<Rightarrow> int \<Rightarrow> int \<Rightarrow> open_list \<Rightarrow> bool" where
  "newest_open n p2 p1 ol =
     (\<exists>a b. ol = a @ (n, p2) # b \<and> (\<forall>x\<in>set a. fst x \<noteq> n) \<and> (n, p1) \<in> set b)"

text \<open>A line of at least four fields, an integer in field 2 and no bracket-shaped code.\<close>

definition plain_line :: "string \<Rightarrow> bool" where
  "plain_line line =
     (case parse_line line of
        Inl e \<Rightarrow> False
      | Inr (flds, word_position, corefs) \<Rightarrow>
          4 \<le> length flds
          \<and> list_all (\<lambda>coref. \<not> startswith coref ''('' \<and> \<not> endswith coref '')'') corefs)"

definition line_token :: "string \<Rightarrow> string" where
  "line_token line = py_strip (py_split line ! 3)"

text \<open>The word position of a line, and lines whose positions count up from \<open>i\<close>.\<close>

definition line_position :: "string \<Rightarrow> int option" where
  "line_position line =
     (case parse_line line of
        Inl e \<Rightarrow> None
      | Inr (flds, word_position, corefs) \<Rightarrow> Some word_position)"

fun positions_from :: "nat \<Rightarrow> string list \<Rightarrow> bool" where
  "positions_from i [] = True"
| "positions_from i (line # ls) = (line_position line = Some (int i) \<and> positions_from (Suc i) ls)"

text \<open>
  The positions held by the open-span list and the spans lie below the bound \<open>b\<close>, and
  no span ends before it starts.
\<close>

definition in_range :: "int \<Rightarrow> open_list \<times> spans \<Rightarrow> bool" where
  "in_range b st =
     ((\<forall>x\<in>set (fst st). 0 \<le> snd x \<and> snd x < b)
      \<and> (\<forall>x\<in>set (snd st). 0 \<le> fst (snd x) \<and> fst (snd x) \<le> snd (snd x) \<and> snd (snd x) < b))"

subsection \<open>The chunks of a stream\<close>

text \<open>The first \<open>n\<close> chunks that \<open>read_conll_chunk\<close> reads, and the stream after them.\<close>

fun read_chunks :: "nat \<Rightarrow> string list \<Rightarrow> ConllChunk list \<times> string list" where
  "read_chunks 0 s = ([], s)"
| "read_chunks (Suc n) s =
     (case read_conll_chunk s of (c, r) \<Rightarrow>
        (case read_chunks n r of (cs, r') \<Rightarrow> (c # cs, r')))"

text \<open>The stream is at its end, or its next line is blank.\<close>

definition at_end_or_blank :: "string list \<Rightarrow> bool" where
  "at_end_or_blank s = (case s of [] \<Rightarrow> True | l # r \<Rightarrow> py_strip l = [])"

text \<open>
  The next chunks of the stream \<open>s\<close> are a \<open>BeginDocument\<close> of id \<open>d\<close>, the segments
  \<open>segs\<close> and an \<open>EndDocument\<close>, and \<open>r\<close> is the stream after them.
\<close>

definition conforming :: "string list \<Rightarrow> string \<Rightarrow> ConllChunk list \<Rightarrow> string list \<Rightarrow> bool" where
  "conforming s d segs r =
     (list_all (\<lambda>x. conll_type x = ''segment'') segs
      \<and> read_chunks (length segs + 2) s = (BeginDocument d # segs @ [EndDocument], r))"

subsection \<open>Grouping references by entity\<close>

text \<open>
  The references of the sentences in reading order, each with its entity and the index
  of its sentence; the keys of a list in the order of their first occurrence; the
  clusters, one per key.
\<close>

fun tagged_references :: "nat \<Rightarrow> Sentence list \<Rightarrow> (int \<times> mention) list" where
  "tagged_references i [] = []"
| "tagged_references i (sent # sents) =
     map (\<lambda>(entity, start, stop). (entity, (int i, start, stop))) (references sent)
       @ tagged_references (Suc i) sents"

fun first_keys :: "int list \<Rightarrow> int list" where
  "first_keys [] = []"
| "first_keys (k # ks) = k # filter (\<lambda>x. x \<noteq> k) (first_keys ks)"

definition cluster_of :: "int \<Rightarrow> (int \<times> mention) list \<Rightarrow> mention list" where
  "cluster_of k tagged = map snd (filter (\<lambda>p. fst p = k) tagged)"

definition group_by_entity :: "(int \<times> mention) list \<Rightarrow> mention list list" where
  "group_by_entity tagged = map (\<lambda>k. cluster_of k tagged) (first_keys (map fst tagged))"

text \<open>
  The two loops of \<open>process_conll_document\<close> as one run of \<open>append\<close>s over tagged
  references, and the grouping with its keys.
\<close>

fun append_all :: "(int \<times> mention list) list \<Rightarrow> (int \<times> mention) list \<Rightarrow> (int \<times> mention list) list" where
  "append_all m [] = m"
| "append_all m ((k, v) # xs) = append_all (append_mention m k v) xs"

definition grouped :: "(int \<times> mention) list \<Rightarrow> (int \<times> mention list) list" where
  "grouped tagged = map (\<lambda>k. (k, cluster_of k tagged)) (first_keys (map fst tagged))"

subsection \<open>Well-formed streams\<close>

text \<open>
  A well-formed stream is the concatenation of documents: a line starting with the begin
  marker, segments, a line starting with the end marker. A segment is a non-empty run of
  non-blank lines, the first of which starts with neither marker, followed by a blank line.
\<close>

type_synonym raw_segment = "string list \<times> string"
type_synonym raw_document = "string \<times> raw_segment list \<times> string"

fun render_segment :: "raw_segment \<Rightarrow> string list" where
  "render_segment (ls, blank) = ls @ [blank]"

fun render_document :: "raw_document \<Rightarrow> string list" where
  "render_document (hdr, segs, ftr) = hdr # concat (map render_segment segs) @ [ftr]"

definition render_stream :: "raw_document list \<Rightarrow> string list" where
  "render_stream docs = concat (map render_document docs)"

fun wf_segment :: "raw_segment \<Rightarrow> bool" where
  "wf_segment (ls, blank) =
     (ls \<noteq> [] \<and> list_all (\<lambda>l. py_strip l \<noteq> []) ls
      \<and> \<not> startswith (hd ls) ''#begin document''
      \<and> \<not> startswith (hd ls) ''#end document''
      \<and> py_strip blank = [])"

fun wf_document :: "raw_document \<Rightarrow> bool" where
  "wf_document (hdr, segs, ftr) =
     (startswith hdr ''#begin document'' \<and> list_all wf_segment segs
      \<and> startswith ftr ''#end document'')"

text \<open>What the reader makes of a well-formed document: its id and its segment chunks.\<close>

fun segment_chunk :: "raw_segment \<Rightarrow> ConllChunk" where
  "segment_chunk (ls, blank) = Segment (hd ls # map py_strip (tl ls))"

fun document_id :: "raw_document \<Rightarrow> string" where
  "document_id (hdr, segs, ftr) = py_strip (drop (length ''#begin document'') hdr)"

fun document_chunks :: "raw_document \<Rightarrow> ConllChunk list" where
  "document_chunks (hdr, segs, ftr) = map segment_chunk segs"

section \<open>Token normalization\<close>

lemma normalize_token_idem: "normalize_token (normalize_token tok) = normalize_token tok"
  by (simp add: normalize_token_def)

text \<open>
  Claim C9. Token normalization is idempotent: normalizing a normalized token list gives
  the same list as normalizing once, for every token list.
\<close>

theorem normalize_idempotent: "normalize_tokens (normalize_tokens toks) = normalize_tokens toks"
  by (induction toks) (simp_all add: normalize_token_idem)

section \<open>The segment decoder\<close>

lemmas decoder_defs =
  py_split_def is_space_def py_int_def py_strip_def parse_nat_def is_digit_def digit_val_def
  process_conll_sentence_def process_line_def parse_line_def process_coref_def index_def
  index_last_def startswith_def endswith_def mk_Sentence_def normalize_token_def

subsection \<open>The decoder as a run over the codes\<close>

lemma run_corefs_append:
  "run_corefs (evs @ evs') st =
     (case run_corefs evs st of Inl e \<Rightarrow> Inl e | Inr st' \<Rightarrow> run_corefs evs' st')"
  by (induction evs arbitrary: st) (auto split: sum.splits)

lemma process_corefs_run:
  "process_corefs wp st cs = run_corefs (map (Pair wp) cs) st"
  by (induction cs arbitrary: st) (auto split: sum.splits)

lemma process_line_events:
  assumes "process_line (toks, ol, sp) line = Inr (toks', ol', sp')"
  shows "\<exists>evs. line_events line = Inr evs \<and> run_corefs evs (ol, sp) = Inr (ol', sp')"
  using assms
  by (auto simp: process_line_def line_events_def process_corefs_run split: sum.splits prod.splits)

lemma process_lines_events:
  "process_lines (toks, ol, sp) ls = Inr (toks', ol', sp') \<Longrightarrow>
   \<exists>evs. segment_events ls = Inr evs \<and> run_corefs evs (ol, sp) = Inr (ol', sp')"
proof (induction ls arbitrary: toks ol sp)
  case Nil
  then show ?case by simp
next
  case (Cons line ls)
  from Cons.prems obtain t1 o1 s1 where
    step: "process_line (toks, ol, sp) line = Inr (t1, o1, s1)" and
    rest: "process_lines (t1, o1, s1) ls = Inr (toks', ol', sp')"
    by (auto split: sum.splits)
  from process_line_events [OF step] obtain evs where
    e1: "line_events line = Inr evs" and r1: "run_corefs evs (ol, sp) = Inr (o1, s1)"
    by blast
  from Cons.IH [OF rest] obtain evs' where
    e2: "segment_events ls = Inr evs'" and r2: "run_corefs evs' (o1, s1) = Inr (ol', sp')"
    by blast
  show ?case
    using e1 e2 r1 r2 by (simp add: run_corefs_append)
qed

lemma find_SomeD: "find P xs = Some x \<Longrightarrow> x \<in> set xs \<and> P x"
  by (induction xs) (auto split: if_splits)

subsection \<open>Entries left in the open-span list\<close>

lemma find_remove1_length:
  assumes "find (\<lambda>y. fst y = n) ol = Some x"
  shows "Suc (length (remove1 (n, snd x) ol)) = length ol"
proof -
  from find_SomeD [OF assms] have mem: "x \<in> set ol" and eq: "(n, snd x) = x"
    by auto
  from mem have "length (remove1 x ol) = length ol - 1" "ol \<noteq> []"
    by (auto simp: length_remove1)
  then show ?thesis using eq by (cases ol) auto
qed

lemma process_coref_count:
  assumes "process_coref wp (ol, sp) c = Inr (ol', sp')"
  shows "length sp' + length ol' = length sp + length ol + (if is_open_code c then 1 else 0)"
  using assms
  by (auto simp: process_coref_def is_open_code_def split: if_splits option.splits
           dest: find_remove1_length)

lemma run_corefs_count:
  "run_corefs evs (ol, sp) = Inr (ol', sp') \<Longrightarrow>
   length sp' + length ol' = length sp + length ol + length (filter (\<lambda>ev. is_open_code (snd ev)) evs)"
proof (induction evs arbitrary: ol sp)
  case Nil
  then show ?case by simp
next
  case (Cons ev evs)
  obtain wp c where ev: "ev = (wp, c)" by (cases ev)
  from Cons.prems ev obtain o1 s1 where
    step: "process_coref wp (ol, sp) c = Inr (o1, s1)" and
    rest: "run_corefs evs (o1, s1) = Inr (ol', sp')"
    by (auto split: sum.splits)
  show ?case
    using process_coref_count [OF step] Cons.IH [OF rest] ev by simp
qed

text \<open>
  Claim C1, as stated, fails: the segment of the one line \<open>t 0 0 w (7\<close> ends with the
  entry \<open>(7, 0)\<close> in the open-span list, and the decoder returns a sentence with no
  reference instead of raising.
\<close>

theorem unterminated_span_counterexample:
  "process_lines ([], [], []) [''t 0 0 w (7''] = Inr ([''w''], [(7, 0)], [])
   \<and> process_conll_sentence (Segment [''t 0 0 w (7'']) = Inr \<lparr>tokens = [''w''], references = []\<rparr>"
  by (simp add: decoder_defs)

text \<open>
  Claim C1, amended. When the decoding of a segment reaches the end of its lines with
  entries left in the open-span list, the decoder raises nothing: it returns the sentence
  of the normalized tokens and of the spans emitted so far, and drops the entries left.
  The references and the entries left together are as many as the codes that start with
  an opening bracket, so each entry left is a span that the sentence does not have.
\<close>

theorem unterminated_span_dropped:
  assumes "process_lines ([], [], []) ls = Inr (toks, open_list, spans)"
    and "open_list \<noteq> []"
  shows "process_conll_sentence (Segment ls) = Inr \<lparr>tokens = normalize_tokens toks, references = spans\<rparr>
         \<and> (\<exists>evs. segment_events ls = Inr evs
              \<and> length spans + length open_list = length (filter (\<lambda>ev. is_open_code (snd ev)) evs))"
proof -
  from process_lines_events [OF assms(1)] obtain evs where
    e: "segment_events ls = Inr evs" and r: "run_corefs evs ([], []) = Inr (open_list, spans)"
    by blast
  from run_corefs_count [OF r] e assms(1) show ?thesis
    by (simp add: process_conll_sentence_def mk_Sentence_def)
qed

theorem unterminated_span_dropped_witness:
  "process_lines ([], [], []) [''t 0 0 a (7'', ''t 0 1 b (3)''] = Inr ([''a'', ''b''], [(7, 0)], [(3, 1, 1)])
   \<and> [(7, 0)] \<noteq> ([] :: open_list)
   \<and> process_conll_sentence (Segment [''t 0 0 a (7'', ''t 0 1 b (3)''])
       = Inr \<lparr>tokens = normalize_tokens [''a'', ''b''], references = [(3, 1, 1)]\<rparr>"
proof -
  have h: "process_lines ([], [], []) [''t 0 0 a (7'', ''t 0 1 b (3)''] = Inr ([''a'', ''b''], [(7, 0)], [(3, 1, 1)])"
    by (simp add: decoder_defs)
  show ?thesis
    using h unterminated_span_dropped [OF h] by simp
qed

subsection \<open>Splitting the loops\<close>

lemma process_lines_append:
  "process_lines st (ls @ ls') =
     (case process_lines st ls of Inl e \<Rightarrow> Inl e | Inr st' \<Rightarrow> process_lines st' ls')"
  by (induction ls arbitrary: st) (auto split: sum.splits)

lemma process_corefs_append:
  "process_corefs wp st (cs @ cs') =
     (case process_corefs wp st cs of Inl e \<Rightarrow> Inl e | Inr st' \<Rightarrow> process_corefs wp st' cs')"
  by (induction cs arbitrary: st) (auto split: sum.splits)

subsection \<open>A close code with no open entry\<close>

lemma find_None_no_entry: "(\<forall>x\<in>set ol. fst x \<noteq> n) \<Longrightarrow> find (\<lambda>x. fst x = n) ol = None"
  by (induction ol) auto

lemma process_coref_unmatched:
  assumes "code_closes c = Some n" and "\<forall>x\<in>set ol. fst x \<noteq> n"
  shows "process_coref wp (ol, sp) c = Inl StopIteration"
  using assms
  by (auto simp: process_coref_def code_closes_def find_None_no_entry split: if_splits)

text \<open>
  Claim C6. A segment in which a close code \<open>N)\<close> is reached while the open-span list
  has no entry for \<open>N\<close> is not decoded into a sentence: the lines before decode to a state,
  the codes of the line before the close code run from it to an open-span list without
  \<open>N\<close>, and then the decoder fails, with the \<open>StopIteration\<close> of \<open>next\<close>.
\<close>

theorem unmatched_close_fails:
  assumes "process_lines ([], [], []) before = Inr (toks, ol0, sp0)"
    and "parse_line line = Inr (flds, wp, cs @ c # cs')"
    and "process_corefs wp (ol0, sp0) cs = Inr (ol, sp)"
    and "code_closes c = Some n"
    and "\<forall>x\<in>set ol. fst x \<noteq> n"
  shows "process_conll_sentence (Segment (before @ line # after)) = Inl StopIteration"
proof -
  have "process_corefs wp (ol0, sp0) (cs @ c # cs') = Inl StopIteration"
    using assms(3) process_coref_unmatched [OF assms(4,5)]
    by (simp add: process_corefs_append)
  then have "process_line (toks, ol0, sp0) line = Inl StopIteration"
    using assms(2) by (simp add: process_line_def)
  then have "process_lines ([], [], []) (before @ line # after) = Inl StopIteration"
    using assms(1) by (simp add: process_lines_append)
  then show ?thesis
    by (simp add: process_conll_sentence_def)
qed

theorem unmatched_close_fails_witness:
  "process_lines ([], [], []) [''t 0 0 a (3''] = Inr ([''a''], [(3, 0)], [])
   \<and> parse_line ''t 0 1 b (4)|7)|3)'' = Inr ([''t'', ''0'', ''1'', ''b'', ''(4)|7)|3)''], 1, [''(4)''] @ ''7)'' # [''3)''])
   \<and> process_corefs 1 ([(3, 0)], []) [''(4)''] = Inr ([(3, 0)], [(4, 1, 1)])
   \<and> code_closes ''7)'' = Some 7
   \<and> map fst [(3 :: int, 0 :: int)] = [3]
   \<and> process_conll_sentence (Segment ([''t 0 0 a (3''] @ ''t 0 1 b (4)|7)|3)'' # [''t 0 2 c -'']))
       = Inl StopIteration"
proof -
  have h1: "process_lines ([], [], []) [''t 0 0 a (3''] = Inr ([''a''], [(3, 0)], [])"
    by (simp add: decoder_defs)
  have h2: "parse_line ''t 0 1 b (4)|7)|3)'' = Inr ([''t'', ''0'', ''1'', ''b'', ''(4)|7)|3)''], 1, [''(4)''] @ ''7)'' # [''3)''])"
    by (simp add: decoder_defs)
  have h3: "process_corefs 1 ([(3, 0)], []) [''(4)''] = Inr ([(3, 0)], [(4, 1, 1)])"
    by (simp add: decoder_defs)
  have h4: "code_closes ''7)'' = Some 7"
    by (simp add: code_closes_def decoder_defs)
  have h5: "\<forall>x\<in>set [(3, 0 :: int)]. fst x \<noteq> (7 :: int)"
    by simp
  show ?thesis
    using h1 h2 h3 h4 unmatched_close_fails [OF h1 h2 h3 h4 h5, of "[''t 0 2 c -'']"] by simp
qed

subsection \<open>Two open entries of one entity\<close>

lemma find_append_no:
  "(\<forall>x\<in>set a. \<not> P x) \<Longrightarrow> find P (a @ b) = find P b"
  by (induction a) auto

lemma process_coref_keeps_entry:
  assumes "process_coref wp (ol, sp) c = Inr (ol', sp')"
    and "code_closes c \<noteq> Some n" and "(n, q) \<in> set ol"
  shows "(n, q) \<in> set ol'"
  using assms
  by (auto simp: process_coref_def code_closes_def split: if_splits option.splits)

lemma run_corefs_keeps_entry:
  "run_corefs evs (ol, sp) = Inr (ol', sp') \<Longrightarrow>
   \<forall>ev\<in>set evs. code_closes (snd ev) \<noteq> Some n \<Longrightarrow> (n, q) \<in> set ol \<Longrightarrow> (n, q) \<in> set ol'"
proof (induction evs arbitrary: ol sp)
  case Nil
  then show ?case by simp
next
  case (Cons ev evs)
  obtain wp c where ev: "ev = (wp, c)" by (cases ev)
  from Cons.prems(1) ev obtain o1 s1 where
    step: "process_coref wp (ol, sp) c = Inr (o1, s1)" and
    rest: "run_corefs evs (o1, s1) = Inr (ol', sp')"
    by (auto split: sum.splits)
  have "(n, q) \<in> set o1"
    using process_coref_keeps_entry [OF step _ Cons.prems(3)] Cons.prems(2) ev by simp
  then show ?case
    using Cons.IH [OF rest] Cons.prems(2) by simp
qed

lemma process_coref_newest_open:
  assumes step: "process_coref wp (ol, sp) c = Inr (ol', sp')"
    and nc: "code_closes c \<noteq> Some n" and no: "code_opens c \<noteq> Some n"
    and inv: "newest_open n p2 p1 ol"
  shows "newest_open n p2 p1 ol'"
proof -
  from inv obtain a b where
    ol: "ol = a @ (n, p2) # b" and a: "\<forall>x\<in>set a. fst x \<noteq> n" and b: "(n, p1) \<in> set b"
    by (auto simp: newest_open_def)
  consider (same) "ol' = ol"
    | (opened) m where "m \<noteq> n" "ol' = (m, wp) # ol"
    | (closed) m q where "m \<noteq> n" "ol' = remove1 (m, q) ol"
    using step nc no
    by (auto simp: process_coref_def code_closes_def code_opens_def split: if_splits option.splits)
  then show ?thesis
  proof cases
    case same
    with inv show ?thesis by simp
  next
    case opened
    then have "ol' = ((m, wp) # a) @ (n, p2) # b" "\<forall>x\<in>set ((m, wp) # a). fst x \<noteq> n"
      using ol a by auto
    with b show ?thesis unfolding newest_open_def by blast
  next
    case closed
    show ?thesis
    proof (cases "(m, q) \<in> set a")
      case True
      then have "ol' = remove1 (m, q) a @ (n, p2) # b"
        using closed ol by (simp add: remove1_append)
      moreover have "\<forall>x\<in>set (remove1 (m, q) a). fst x \<noteq> n"
        using a set_remove1_subset [of "(m, q)" a] by blast
      ultimately show ?thesis using b unfolding newest_open_def by blast
    next
      case False
      then have "ol' = a @ (n, p2) # remove1 (m, q) b"
        using closed ol by (simp add: remove1_append)
      moreover have "(n, p1) \<in> set (remove1 (m, q) b)"
        using b closed(1) by simp
      ultimately show ?thesis using a unfolding newest_open_def by blast
    qed
  qed
qed

lemma run_corefs_newest_open:
  "run_corefs evs (ol, sp) = Inr (ol', sp') \<Longrightarrow>
   \<forall>ev\<in>set evs. code_closes (snd ev) \<noteq> Some n \<and> code_opens (snd ev) \<noteq> Some n \<Longrightarrow>
   newest_open n p2 p1 ol \<Longrightarrow> newest_open n p2 p1 ol'"
proof (induction evs arbitrary: ol sp)
  case Nil
  then show ?case by simp
next
  case (Cons ev evs)
  obtain wp c where ev: "ev = (wp, c)" by (cases ev)
  from Cons.prems(1) ev obtain o1 s1 where
    step: "process_coref wp (ol, sp) c = Inr (o1, s1)" and
    rest: "run_corefs evs (o1, s1) = Inr (ol', sp')"
    by (auto split: sum.splits)
  have "newest_open n p2 p1 o1"
    using process_coref_newest_open [OF step _ _ Cons.prems(3)] Cons.prems(2) ev by simp
  then show ?case
    using Cons.IH [OF rest] Cons.prems(2) by simp
qed

lemma process_coref_opens:
  "code_opens c = Some n \<Longrightarrow> process_coref wp (ol, sp) c = Inr ((n, wp) # ol, sp)"
  by (auto simp: process_coref_def code_opens_def split: if_splits)

lemma process_coref_closes_newest:
  assumes "code_closes c = Some n" and "newest_open n p2 p1 ol"
  shows "\<exists>ol'. process_coref wp (ol, sp) c = Inr (ol', sp @ [(n, p2, wp)]) \<and> (n, p1) \<in> set ol'"
proof -
  from assms(2) obtain a b where
    ol: "ol = a @ (n, p2) # b" and a: "\<forall>x\<in>set a. fst x \<noteq> n" and b: "(n, p1) \<in> set b"
    by (auto simp: newest_open_def)
  have f: "find (\<lambda>x. fst x = n) ol = Some (n, p2)"
    using a ol by (simp add: find_append_no)
  have "(n, p2) \<notin> set a" using a by force
  then have r: "remove1 (n, p2) ol = a @ b"
    using ol by (simp add: remove1_append)
  show ?thesis
    using assms(1) f r b
    by (auto simp: process_coref_def code_closes_def split: if_splits)
qed

lemma process_coref_spans_grow:
  "process_coref wp (ol, sp) c = Inr (ol', sp') \<Longrightarrow> set sp \<subseteq> set sp'"
  by (auto simp: process_coref_def split: if_splits option.splits)

lemma run_corefs_spans_grow:
  "run_corefs evs (ol, sp) = Inr (ol', sp') \<Longrightarrow> set sp \<subseteq> set sp'"
proof (induction evs arbitrary: ol sp)
  case Nil
  then show ?case by simp
next
  case (Cons ev evs)
  obtain wp c where ev: "ev = (wp, c)" by (cases ev)
  from Cons.prems ev obtain o1 s1 where
    step: "process_coref wp (ol, sp) c = Inr (o1, s1)" and
    rest: "run_corefs evs (o1, s1) = Inr (ol', sp')"
    by (auto split: sum.splits)
  show ?case
    using process_coref_spans_grow [OF step] Cons.IH [OF rest] by blast
qed

text \<open>
  Claim C2. In a segment that the decoder accepts and whose codes, in reading order,
  hold an opening code of entity \<open>n\<close> at position \<open>p1\<close>, then, with no close of
  \<open>n\<close> between, a second opening code of \<open>n\<close> at \<open>p2\<close>, then, with no code
  opening or closing \<open>n\<close> between, a closing code of \<open>n\<close> at \<open>p\<close>, the close is
  matched to the latest open entry: the span that the close emits is \<open>(n, p2, p)\<close>, the
  entry \<open>(n, p1)\<close> is still in the open-span list right after the close, and the
  span is a reference of the sentence returned.
\<close>

theorem close_matches_latest_open:
  assumes ev: "segment_events ls
                 = Inr (pre @ [(p1, o1)] @ mid1 @ [(p2, o2)] @ mid2 @ [(p, c)] @ post)"
    and o1: "code_opens o1 = Some n" and o2: "code_opens o2 = Some n"
    and c: "code_closes c = Some n"
    and mid1: "\<forall>ev\<in>set mid1. code_closes (snd ev) \<noteq> Some n"
    and mid2: "\<forall>ev\<in>set mid2. code_closes (snd ev) \<noteq> Some n \<and> code_opens (snd ev) \<noteq> Some n"
    and ok: "process_conll_sentence (Segment ls) = Inr sent"
  shows "\<exists>ol sp. run_corefs (pre @ [(p1, o1)] @ mid1 @ [(p2, o2)] @ mid2 @ [(p, c)]) ([], [])
                    = Inr (ol, sp @ [(n, p2, p)])
           \<and> (n, p1) \<in> set ol
           \<and> (n, p2, p) \<in> set (references sent)"
proof -
  from ok obtain toks open_list spans where
    lines: "process_lines ([], [], []) ls = Inr (toks, open_list, spans)" and
    sent: "sent = mk_Sentence toks spans"
    by (auto simp: process_conll_sentence_def split: sum.splits)
  from process_lines_events [OF lines] ev have
    run: "run_corefs (pre @ [(p1, o1)] @ mid1 @ [(p2, o2)] @ mid2 @ [(p, c)] @ post) ([], [])
            = Inr (open_list, spans)"
    by auto
  from run obtain ol0 sp0 where
    r0: "run_corefs pre ([], []) = Inr (ol0, sp0)" and
    r0': "run_corefs ([(p1, o1)] @ mid1 @ [(p2, o2)] @ mid2 @ [(p, c)] @ post) (ol0, sp0)
            = Inr (open_list, spans)"
    by (auto simp: run_corefs_append split: sum.splits)
  from r0' process_coref_opens [OF o1] have
    r1: "run_corefs (mid1 @ [(p2, o2)] @ mid2 @ [(p, c)] @ post) ((n, p1) # ol0, sp0)
           = Inr (open_list, spans)"
    by simp
  then obtain ol1 sp1 where
    m1: "run_corefs mid1 ((n, p1) # ol0, sp0) = Inr (ol1, sp1)" and
    r1': "run_corefs ([(p2, o2)] @ mid2 @ [(p, c)] @ post) (ol1, sp1) = Inr (open_list, spans)"
    by (auto simp: run_corefs_append split: sum.splits)
  have in1: "(n, p1) \<in> set ol1"
    using run_corefs_keeps_entry [OF m1 mid1] by simp
  from r1' process_coref_opens [OF o2] have
    r2: "run_corefs (mid2 @ [(p, c)] @ post) ((n, p2) # ol1, sp1) = Inr (open_list, spans)"
    by simp
  then obtain ol2 sp2 where
    m2: "run_corefs mid2 ((n, p2) # ol1, sp1) = Inr (ol2, sp2)" and
    r2': "run_corefs ([(p, c)] @ post) (ol2, sp2) = Inr (open_list, spans)"
    by (auto simp: run_corefs_append split: sum.splits)
  have "newest_open n p2 p1 ((n, p2) # ol1)"
    unfolding newest_open_def using in1 by (intro exI [of _ "[]"] exI [of _ ol1]) simp
  then have inv: "newest_open n p2 p1 ol2"
    using run_corefs_newest_open [OF m2 mid2] by simp
  from process_coref_closes_newest [OF c inv, of p sp2] obtain ol3 where
    close: "process_coref p (ol2, sp2) c = Inr (ol3, sp2 @ [(n, p2, p)])" and
    in3: "(n, p1) \<in> set ol3"
    by blast
  from r2' close have r3: "run_corefs post (ol3, sp2 @ [(n, p2, p)]) = Inr (open_list, spans)"
    by simp
  have "(n, p2, p) \<in> set spans"
    using run_corefs_spans_grow [OF r3] by auto
  then have ref: "(n, p2, p) \<in> set (references sent)"
    using sent by (simp add: mk_Sentence_def)
  have "run_corefs (pre @ [(p1, o1)] @ mid1 @ [(p2, o2)] @ mid2 @ [(p, c)]) ([], [])
          = Inr (ol3, sp2 @ [(n, p2, p)])"
    using r0 m1 m2 close process_coref_opens [OF o1] process_coref_opens [OF o2]
    by (simp add: run_corefs_append)
  with in3 ref show ?thesis by blast
qed

theorem close_matches_latest_open_witness:
  "segment_events [''t 0 0 a (5'', ''t 0 1 b (5|(2)'', ''t 0 2 c 5)|(9'']
     = Inr ([] @ [(0, ''(5'')] @ [] @ [(1, ''(5'')] @ [(1, ''(2)'')] @ [(2, ''5)'')] @ [(2, ''(9'')])
   \<and> code_opens ''(5'' = Some 5 \<and> code_closes ''5)'' = Some 5
   \<and> code_closes ''(2)'' = None \<and> code_opens ''(2)'' = None
   \<and> process_conll_sentence (Segment [''t 0 0 a (5'', ''t 0 1 b (5|(2)'', ''t 0 2 c 5)|(9''])
       = Inr \<lparr>tokens = [''a'', ''b'', ''c''], references = [(2, 1, 1), (5, 1, 2)]\<rparr>
   \<and> run_corefs [(0, ''(5''), (1, ''(5''), (1, ''(2)''), (2, ''5)'')] ([], [])
       = Inr ([(5, 0)], [(2, 1, 1)] @ [(5, 1, 2)])
   \<and> (5, 1, 2) \<in> set (references \<lparr>tokens = [''a'', ''b'', ''c''], references = [(2, 1, 1), (5, 1, 2)]\<rparr>)"
proof -
  have h1: "segment_events [''t 0 0 a (5'', ''t 0 1 b (5|(2)'', ''t 0 2 c 5)|(9'']
     = Inr ([] @ [(0, ''(5'')] @ [] @ [(1, ''(5'')] @ [(1, ''(2)'')] @ [(2, ''5)'')] @ [(2, ''(9'')])"
    by (simp add: decoder_defs line_events_def)
  have h2: "code_opens ''(5'' = Some 5"
    by (simp add: code_opens_def decoder_defs)
  have h3: "code_closes ''5)'' = Some 5"
    by (simp add: code_closes_def decoder_defs)
  have h4: "\<forall>ev\<in>set ([] :: (int \<times> string) list). code_closes (snd ev) \<noteq> Some 5"
    by simp
  have h5: "\<forall>ev\<in>set [(1 :: int, ''(2)'')]. code_closes (snd ev) \<noteq> Some 5 \<and> code_opens (snd ev) \<noteq> Some 5"
    by (simp add: code_opens_def code_closes_def decoder_defs)
  have h6: "process_conll_sentence (Segment [''t 0 0 a (5'', ''t 0 1 b (5|(2)'', ''t 0 2 c 5)|(9''])
       = Inr \<lparr>tokens = [''a'', ''b'', ''c''], references = [(2, 1, 1), (5, 1, 2)]\<rparr>"
    by (simp add: decoder_defs)
  have h7: "code_closes ''(2)'' = None \<and> code_opens ''(2)'' = None"
    by (simp add: code_opens_def code_closes_def decoder_defs)
  have h8: "run_corefs [(0, ''(5''), (1, ''(5''), (1, ''(2)''), (2, ''5)'')] ([], [])
       = Inr ([(5, 0)], [(2, 1, 1)] @ [(5, 1, 2)])"
    by (simp add: decoder_defs)
  show ?thesis
    using h1 h2 h3 h6 h7 h8 close_matches_latest_open [OF h1 h2 h2 h3 h4 h5 h6] by simp
qed

subsection \<open>The indices of the spans\<close>

lemma in_range_mono: "in_range b st \<Longrightarrow> b \<le> b' \<Longrightarrow> in_range b' st"
  by (fastforce simp: in_range_def)

lemma process_coref_in_range:
  assumes "process_coref wp st c = Inr st'" and "in_range (wp + 1) st" and "0 \<le> wp"
  shows "in_range (wp + 1) st'"
proof -
  obtain ol sp where st: "st = (ol, sp)" by (cases st)
  have found: "0 \<le> snd x \<and> snd x < wp + 1" if "find (\<lambda>y. fst y = n) ol = Some x" for x n
    using find_SomeD [OF that] assms(2) st by (auto simp: in_range_def)
  have rem: "\<forall>y\<in>set (remove1 z ol). 0 \<le> snd y \<and> snd y < wp + 1" for z
    using assms(2) st set_remove1_subset [of z ol] by (auto simp: in_range_def)
  show ?thesis
    using assms st rem
    by (auto simp: process_coref_def in_range_def split: if_splits option.splits dest!: found)
qed

lemma process_corefs_in_range:
  "process_corefs wp st cs = Inr st' \<Longrightarrow> in_range (wp + 1) st \<Longrightarrow> 0 \<le> wp \<Longrightarrow> in_range (wp + 1) st'"
proof (induction cs arbitrary: st)
  case Nil
  then show ?case by simp
next
  case (Cons c cs)
  from Cons.prems(1) obtain st1 where
    step: "process_coref wp st c = Inr st1" and rest: "process_corefs wp st1 cs = Inr st'"
    by (auto split: sum.splits)
  show ?case
    using Cons.IH [OF rest process_coref_in_range [OF step Cons.prems(2,3)] Cons.prems(3)] .
qed

lemma process_line_in_range:
  assumes "process_line (toks, ol, sp) line = Inr (toks', ol', sp')"
    and "line_position line = Some (int (length toks))"
    and "in_range (int (length toks)) (ol, sp)"
  shows "in_range (int (length toks')) (ol', sp') \<and> length toks' = Suc (length toks)"
proof -
  from assms(1,2) obtain cs where
    run: "process_corefs (int (length toks)) (ol, sp) cs = Inr (ol', sp')" and
    len: "length toks' = Suc (length toks)"
    by (auto simp: process_line_def line_position_def split: sum.splits prod.splits)
  have "in_range (int (length toks) + 1) (ol, sp)"
    using in_range_mono [OF assms(3)] by simp
  from process_corefs_in_range [OF run this] len show ?thesis
    by (simp add: add.commute)
qed

lemma process_lines_in_range:
  "process_lines (toks, ol, sp) ls = Inr (toks', ol', sp') \<Longrightarrow>
   positions_from (length toks) ls \<Longrightarrow> in_range (int (length toks)) (ol, sp) \<Longrightarrow>
   in_range (int (length toks')) (ol', sp')"
proof (induction ls arbitrary: toks ol sp)
  case Nil
  then show ?case by simp
next
  case (Cons line ls)
  from Cons.prems(1) obtain t1 o1 s1 where
    step: "process_line (toks, ol, sp) line = Inr (t1, o1, s1)" and
    rest: "process_lines (t1, o1, s1) ls = Inr (toks', ol', sp')"
    by (auto split: sum.splits)
  from Cons.prems(2) have pos: "line_position line = Some (int (length toks))"
    and poss: "positions_from (Suc (length toks)) ls"
    by simp_all
  from process_line_in_range [OF step pos Cons.prems(3)] have
    inv: "in_range (int (length t1)) (o1, s1)" and len: "length t1 = Suc (length toks)"
    by blast+
  from poss len have "positions_from (length t1) ls" by simp
  from Cons.IH [OF rest this inv] show ?case .
qed

lemma length_normalize: "length (normalize_tokens toks) = length toks"
  by (induction toks) simp_all

text \<open>
  Claim C7, as stated, fails: the decoder takes the position of a word from field 2 of
  its line and checks nothing about it. The segment of the lines \<open>t 0 3 a (1\<close> and
  \<open>t 0 1 b 1)\<close> is accepted with the reference \<open>(1, 3, 1)\<close>, which starts after its
  end and outside the two tokens.
\<close>

theorem span_indices_counterexample:
  "process_conll_sentence (Segment [''t 0 3 a (1'', ''t 0 1 b 1)''])
     = Inr \<lparr>tokens = [''a'', ''b''], references = [(1, 3, 1)]\<rparr>
   \<and> \<not> (3 :: int) \<le> 1 \<and> \<not> (3 :: int) < int (length [''a'', ''b''])"
  by (simp add: decoder_defs)

text \<open>
  Claim C7, amended. For every segment the decoder accepts and whose lines carry the
  word positions 0, 1, 2, ... in order (field 2 of the line of index \<open>k\<close> is \<open>k\<close>),
  every reference triple of the sentence returned has \<open>0 \<le> start \<le> end\<close> and
  \<open>end\<close> below the number of tokens.
\<close>

theorem span_indices_in_range:
  assumes "positions_from 0 ls"
    and "process_conll_sentence (Segment ls) = Inr sent"
  shows "\<forall>(entity, start, stop)\<in>set (references sent).
           0 \<le> start \<and> start \<le> stop \<and> stop < int (length (tokens sent))"
proof -
  from assms(2) obtain toks ol sp where
    run: "process_lines ([], [], []) ls = Inr (toks, ol, sp)" and
    sent: "sent = mk_Sentence toks sp"
    by (auto simp: process_conll_sentence_def split: sum.splits)
  have "in_range (int (length toks)) (ol, sp)"
    using process_lines_in_range [OF run] assms(1) by (simp add: in_range_def)
  then show ?thesis
    using sent by (auto simp: in_range_def mk_Sentence_def length_normalize)
qed

theorem span_indices_in_range_witness:
  "positions_from 0 [''t 0 0 a (1|(2)'', ''t 0 1 b -'', ''t 0 2 c 1)'']
   \<and> process_conll_sentence (Segment [''t 0 0 a (1|(2)'', ''t 0 1 b -'', ''t 0 2 c 1)''])
       = Inr \<lparr>tokens = [''a'', ''b'', ''c''], references = [(2, 0, 0), (1, 0, 2)]\<rparr>
   \<and> list_all (\<lambda>(entity, start, stop). 0 \<le> start \<and> start \<le> stop \<and> stop < int (length [''a'', ''b'', ''c'']))
         [(2 :: int, 0 :: int, 0 :: int), (1, 0, 2)]"
proof -
  have h1: "positions_from 0 [''t 0 0 a (1|(2)'', ''t 0 1 b -'', ''t 0 2 c 1)'']"
    by (simp add: line_position_def decoder_defs)
  have h2: "process_conll_sentence (Segment [''t 0 0 a (1|(2)'', ''t 0 1 b -'', ''t 0 2 c 1)''])
       = Inr \<lparr>tokens = [''a'', ''b'', ''c''], references = [(2, 0, 0), (1, 0, 2)]\<rparr>"
    by (simp add: decoder_defs)
  show ?thesis
    using h1 h2 span_indices_in_range [OF h1 h2] by simp
qed


subsection \<open>Segments without bracket-shaped codes\<close>

lemma process_coref_plain:
  "\<not> startswith c ''('' \<and> \<not> endswith c '')'' \<Longrightarrow> process_coref wp st c = Inr st"
  by (cases st) (simp add: process_coref_def)

lemma process_corefs_plain:
  "list_all (\<lambda>c. \<not> startswith c ''('' \<and> \<not> endswith c '')'') cs \<Longrightarrow> process_corefs wp st cs = Inr st"
  by (induction cs) (simp_all add: process_coref_plain)

lemma process_line_plain:
  assumes "plain_line line"
  shows "process_line (toks, ol, sp) line = Inr (toks @ [line_token line], ol, sp)"
proof -
  from assms obtain flds wp cs where
    p: "parse_line line = Inr (flds, wp, cs)" and n: "4 \<le> length flds" and
    c: "list_all (\<lambda>c. \<not> startswith c ''('' \<and> \<not> endswith c '')'') cs"
    by (auto simp: plain_line_def split: sum.splits)
  from p have f: "flds = py_split line"
    by (auto simp: parse_line_def Let_def split: sum.splits option.splits)
  show ?thesis
    using p n f process_corefs_plain [OF c]
    by (simp add: process_line_def index_def line_token_def)
qed

lemma process_lines_plain:
  "list_all plain_line ls \<Longrightarrow>
   process_lines (toks, ol, sp) ls = Inr (toks @ map line_token ls, ol, sp)"
  by (induction ls arbitrary: toks) (simp_all add: process_line_plain)

text \<open>
  Claim C8, as stated, fails: a segment without bracket-shaped codes is still rejected
  when a line is malformed. The line \<open>a b c d -\<close> has the one code \<open>-\<close>, and the
  decoder raises the \<open>ValueError\<close> of \<open>int('c')\<close>.
\<close>

theorem plain_segment_counterexample:
  "parse_line ''a b c d -'' = Inl ValueError
   \<and> py_split ''a b c d -'' = [''a'', ''b'', ''c'', ''d'', ''-'']
   \<and> \<not> startswith ''-'' ''('' \<and> \<not> endswith ''-'' '')''
   \<and> process_conll_sentence (Segment [''a b c d -'']) = Inl ValueError"
  by (simp add: decoder_defs)

text \<open>
  Claim C8, amended. For every segment whose lines each have at least four fields and an
  integer in field 2, and carry no code that starts with an opening or ends with a
  closing bracket, the decoder raises nothing and returns a sentence with no reference
  and one token per line; from any state, these lines leave the open-span list and the
  spans as they were.
\<close>

theorem plain_segment_decodes:
  assumes "list_all plain_line ls"
  shows "process_lines (toks, open_list, spans) ls = Inr (toks @ map line_token ls, open_list, spans)
         \<and> process_conll_sentence (Segment ls)
             = Inr \<lparr>tokens = normalize_tokens (map line_token ls), references = []\<rparr>
         \<and> length (normalize_tokens (map line_token ls)) = length ls"
  using process_lines_plain [OF assms]
  by (simp add: process_conll_sentence_def mk_Sentence_def length_normalize)

theorem plain_segment_decodes_witness:
  "list_all plain_line [''t 0 0 -LRB- - - -'', ''t 0 1 b * -|-'']
   \<and> process_lines ([''x''], [(4, 2)], [(1, 0, 0)]) [''t 0 0 -LRB- - - -'', ''t 0 1 b * -|-'']
       = Inr ([''x'', ''-LRB-'', ''b''], [(4, 2)], [(1, 0, 0)])
   \<and> process_conll_sentence (Segment [''t 0 0 -LRB- - - -'', ''t 0 1 b * -|-''])
       = Inr \<lparr>tokens = [''('', ''b''], references = []\<rparr>"
proof -
  have h: "list_all plain_line [''t 0 0 -LRB- - - -'', ''t 0 1 b * -|-'']"
    by (simp add: plain_line_def decoder_defs)
  have t1: "line_token ''t 0 0 -LRB- - - -'' = ''-LRB-''"
    by (simp add: line_token_def decoder_defs)
  have t2: "line_token ''t 0 1 b * -|-'' = ''b''"
    by (simp add: line_token_def decoder_defs)
  show ?thesis
    using h plain_segment_decodes [OF h, of "[''x'']" "[(4, 2)]" "[(1, 0, 0)]"]
    by (simp add: t1 t2 normalize_token_def)
qed


section \<open>Clustering the mentions\<close>

lemma append_all_append: "append_all m (xs @ ys) = append_all (append_all m xs) ys"
  by (induction xs arbitrary: m) auto

lemma add_references_append_all:
  "add_references i refs m =
     append_all m (map (\<lambda>(entity, start, stop). (entity, (int i, start, stop))) refs)"
  by (induction refs arbitrary: m) auto

lemma add_sentences_append_all:
  "add_sentences i sents m = append_all m (tagged_references i sents)"
  by (induction sents arbitrary: i m) (simp_all add: add_references_append_all append_all_append)

lemma set_first_keys: "set (first_keys ks) = set ks"
  by (induction ks) auto

lemma distinct_first_keys: "distinct (first_keys ks)"
  by (induction ks) (auto simp: set_first_keys)

lemma first_keys_snoc:
  "first_keys (ks @ [k]) = (if k \<in> set ks then first_keys ks else first_keys ks @ [k])"
  by (induction ks) (auto simp: set_first_keys)

lemma append_mention_absent:
  "k \<notin> fst ` set m \<Longrightarrow> append_mention m k v = m @ [(k, [v])]"
  by (induction m) auto

lemma append_mention_keys:
  assumes "distinct ks"
  shows "append_mention (map (\<lambda>j. (j, f j)) ks) k v =
     (if k \<in> set ks then map (\<lambda>j. (j, if j = k then f j @ [v] else f j)) ks
      else map (\<lambda>j. (j, f j)) ks @ [(k, [v])])"
  using assms
proof (induction ks)
  case Nil
  then show ?case by simp
next
  case (Cons a ks)
  show ?case
  proof (cases "a = k")
    case True
    with Cons.prems have "k \<notin> set ks" by simp
    then have "map (\<lambda>j. (j, if j = k then f j @ [v] else f j)) ks = map (\<lambda>j. (j, f j)) ks"
      by (intro map_cong) auto
    with True show ?thesis by simp
  next
    case False
    with Cons show ?thesis by simp
  qed
qed

lemma cluster_of_snoc:
  "cluster_of j (xs @ [(k, v)]) = (if j = k then cluster_of j xs @ [v] else cluster_of j xs)"
  by (simp add: cluster_of_def)

lemma cluster_of_absent: "k \<notin> fst ` set xs \<Longrightarrow> cluster_of k xs = []"
  by (induction xs) (auto simp: cluster_of_def)

lemma grouped_snoc: "grouped (xs @ [(k, v)]) = append_mention (grouped xs) k v"
proof (cases "k \<in> fst ` set xs")
  case True
  then have "first_keys (map fst (xs @ [(k, v)])) = first_keys (map fst xs)"
    by (simp add: first_keys_snoc)
  moreover from True have "k \<in> set (first_keys (map fst xs))"
    by (simp add: set_first_keys)
  ultimately show ?thesis
    unfolding grouped_def
    by (simp add: append_mention_keys [OF distinct_first_keys] cluster_of_snoc)
next
  case False
  then have fk: "first_keys (map fst (xs @ [(k, v)])) = first_keys (map fst xs) @ [k]"
    by (simp add: first_keys_snoc)
  from False have notin: "k \<notin> set (first_keys (map fst xs))"
    by (simp add: set_first_keys)
  then have same: "map (\<lambda>j. (j, cluster_of j (xs @ [(k, v)]))) (first_keys (map fst xs))
      = map (\<lambda>j. (j, cluster_of j xs)) (first_keys (map fst xs))"
    by (intro map_cong) (auto simp: cluster_of_snoc)
  show ?thesis
    unfolding grouped_def fk
    using notin same
    by (simp add: append_mention_keys [OF distinct_first_keys] cluster_of_snoc
        cluster_of_absent [OF False])
qed

lemma append_all_grouped: "append_all (grouped xs) ys = grouped (xs @ ys)"
proof (induction ys arbitrary: xs)
  case Nil
  then show ?case by simp
next
  case (Cons y ys)
  obtain k v where y: "y = (k, v)" by (cases y)
  have "append_all (grouped xs) (y # ys) = append_all (grouped (xs @ [(k, v)])) ys"
    using y by (simp add: grouped_snoc)
  also have "\<dots> = grouped ((xs @ [(k, v)]) @ ys)"
    by (rule Cons.IH)
  finally show ?case using y by simp
qed

text \<open>
  Claim C5. The mentions of an assembled document are the references of its sentences
  grouped by entity: the reference \<open>(entity, start, end)\<close> of the sentence of index
  \<open>i\<close> puts \<open>(i, start, end)\<close> into the cluster of \<open>entity\<close>, each cluster holds the
  triples of one entity and no two clusters are of the same entity, the clusters come in
  the order in which their entities occur first, and the entity ids are not part of the
  output. The tokens of the document are the token lists of the sentences.
\<close>

theorem mentions_grouped_by_entity:
  "mentions (process_conll_document d sents) = group_by_entity (tagged_references 0 sents)
   \<and> distinct (first_keys (map fst (tagged_references 0 sents)))
   \<and> doc_tokens (process_conll_document d sents) = map tokens sents
   \<and> doc_id (process_conll_document d sents) = d"
proof -
  have "add_sentences 0 sents [] = grouped (tagged_references 0 sents)"
    using append_all_grouped [of "[]" "tagged_references 0 sents"]
    by (simp add: add_sentences_append_all grouped_def)
  then show ?thesis
    by (simp add: process_conll_document_def group_by_entity_def grouped_def
        distinct_first_keys comp_def)
qed

section \<open>The document assembler\<close>

lemma collect_segments_sound:
  "collect_segments c0 acc s = (c, chunks, r) \<Longrightarrow>
   \<exists>segs cs. chunks = acc @ segs \<and> (\<forall>x\<in>set segs. conll_type x = ''segment'')
      \<and> conll_type c \<noteq> ''segment''
      \<and> read_chunks (length segs) s = (cs, r) \<and> c0 # cs = segs @ [c]"
proof (induction c0 acc s rule: collect_segments.induct)
  case (1 nextchunk chunks0 s)
  show ?case
  proof (cases "conll_type nextchunk = ''segment''")
    case False
    with "1.prems" show ?thesis
      by (subst (asm) collect_segments.simps) (auto intro!: exI [of _ "[]"])
  next
    case True
    obtain c1 r1 where rd: "read_conll_chunk s = (c1, r1)" by (cases "read_conll_chunk s")
    from "1.prems" True rd have "collect_segments c1 (chunks0 @ [nextchunk]) r1 = (c, chunks, r)"
      by (subst (asm) collect_segments.simps) simp
    from "1.IH" [OF True rd [symmetric] this] obtain segs cs where
      a: "chunks = (chunks0 @ [nextchunk]) @ segs" and
      b: "\<forall>x\<in>set segs. conll_type x = ''segment''" and
      c: "conll_type c \<noteq> ''segment''" and
      d: "read_chunks (length segs) r1 = (cs, r)" and
      e: "c1 # cs = segs @ [c]"
      by blast
    show ?thesis
      apply (rule exI [of _ "nextchunk # segs"])
      apply (rule exI [of _ "c1 # cs"])
      using a b c d e True rd by simp
  qed
qed

lemma collect_segments_complete:
  "\<forall>x\<in>set segs. conll_type x = ''segment'' \<Longrightarrow> conll_type c \<noteq> ''segment'' \<Longrightarrow>
   read_chunks (length segs) s = (cs, r) \<Longrightarrow> c0 # cs = segs @ [c] \<Longrightarrow>
   collect_segments c0 acc s = (c, acc @ segs, r)"
proof (induction segs arbitrary: c0 acc s cs)
  case Nil
  then show ?case
    by (subst collect_segments.simps) auto
next
  case (Cons x segs)
  from Cons.prems(4) have c0: "c0 = x" and cs: "cs = segs @ [c]" by simp_all
  obtain c1 r1 where rd: "read_conll_chunk s = (c1, r1)" by (cases "read_conll_chunk s")
  from Cons.prems(3) rd obtain cs1 where
    rest: "read_chunks (length segs) r1 = (cs1, r)" and cs1: "cs = c1 # cs1"
    by (auto split: prod.splits)
  have "collect_segments c1 ((acc @ [x]) @ segs') r1 = (c, (acc @ [x]) @ segs, r)" if "segs' = []" for segs'
    using Cons.IH [OF _ Cons.prems(2) rest, of c1 "acc @ [x]"] Cons.prems(1) cs cs1 that by simp
  then have "collect_segments c1 (acc @ [x]) r1 = (c, acc @ x # segs, r)"
    by simp
  then show ?case
    using c0 Cons.prems(1) rd by (subst collect_segments.simps) simp
qed


lemma conll_type_eof: "conll_type c = ''eof'' \<longleftrightarrow> c = EndFile"
  by (cases c) simp_all

lemma conll_type_begin: "conll_type c = ''begin'' \<longleftrightarrow> (\<exists>d. c = BeginDocument d)"
  by (cases c) simp_all

lemma conll_type_end: "conll_type c = ''end'' \<longleftrightarrow> c = EndDocument"
  by (cases c) simp_all

lemma read_conll_document_sound:
  assumes "read_conll_document s = Inr (Some (d, segs), r)"
  shows "conforming s d segs r"
proof -
  obtain c1 s1 where r1: "read_conll_chunk s = (c1, s1)" by (cases "read_conll_chunk s")
  obtain c2 s2 where r2: "read_conll_chunk s1 = (c2, s2)" by (cases "read_conll_chunk s1")
  obtain c chunks s3 where col: "collect_segments c2 [] s2 = (c, chunks, s3)"
    by (cases "collect_segments c2 [] s2")
  from assms r1 r2 col have c1: "c1 = BeginDocument d" and c: "c = EndDocument"
    and chunks: "chunks = segs" and s3: "s3 = r"
    by (auto simp: read_conll_document_def conll_type_end split: if_splits ConllChunk.splits)
  from collect_segments_sound [OF col] chunks obtain cs where
    seg: "\<forall>x\<in>set segs. conll_type x = ''segment''" and
    rd: "read_chunks (length segs) s2 = (cs, s3)" and cs: "c2 # cs = segs @ [c]"
    by auto
  show ?thesis
    using r1 r2 rd cs c1 c s3 seg by (simp add: conforming_def list_all_iff)
qed

lemma read_conll_document_complete:
  assumes "conforming s d segs r"
  shows "read_conll_document s = Inr (Some (d, segs), r)"
proof -
  obtain c1 s1 where r1: "read_conll_chunk s = (c1, s1)" by (cases "read_conll_chunk s")
  obtain c2 s2 where r2: "read_conll_chunk s1 = (c2, s2)" by (cases "read_conll_chunk s1")
  obtain cs r' where rd: "read_chunks (length segs) s2 = (cs, r')"
    by (cases "read_chunks (length segs) s2")
  from assms r1 r2 rd have c1: "c1 = BeginDocument d" and cs: "c2 # cs = segs @ [EndDocument]"
    and r': "r' = r" and seg: "\<forall>x\<in>set segs. conll_type x = ''segment''"
    by (auto simp: conforming_def list_all_iff)
  have "collect_segments c2 [] s2 = (EndDocument, [] @ segs, r')"
    by (rule collect_segments_complete [OF seg _ rd cs]) simp
  then show ?thesis
    using r1 r2 c1 r' by (simp add: read_conll_document_def)
qed

lemma read_conll_document_exhausted:
  "read_conll_document s = Inr (None, r) \<longleftrightarrow> read_conll_chunk s = (EndFile, r)"
  by (cases "read_conll_chunk s")
     (auto simp: read_conll_document_def conll_type_eof split: prod.splits ConllChunk.splits)

lemma read_conll_document_error:
  "read_conll_document s = Inl e \<Longrightarrow> \<exists>c. e = UnexpectedChunk c"
  by (auto simp: read_conll_document_def conll_type_begin split: prod.splits if_splits ConllChunk.splits)

text \<open>
  Claim C3, as stated, fails: a \<open>BeginDocument\<close> followed at once by an
  \<open>EndDocument\<close> is a document without segments, and the assembler returns it with an
  empty segment list instead of raising.
\<close>

theorem document_grammar_counterexample:
  "read_chunks 2 [''#begin document x'', ''#end document''] = ([BeginDocument ''x'', EndDocument], [])
   \<and> read_conll_document [''#begin document x'', ''#end document''] = Inr (Some (''x'', []), [])"
  by (simp add: read_conll_document_def read_conll_chunk_def readline_def startswith_def
      py_strip_def is_space_def collect_segments.simps numeral_2_eq_2)

text \<open>
  Claim C3, amended. The assembler fails exactly when the next chunk is not the end of
  the input and the next chunks are not one \<open>BeginDocument\<close>, zero or more segments and
  one \<open>EndDocument\<close>; the failure is the exception for an unexpected chunk. On such a
  sequence it returns the document id and the list of the segments, which is empty for a
  document without segments; at the end of the input it returns the sentinel. A
  \<open>BeginDocument\<close> followed by another one, and the end of the input before the
  \<open>EndDocument\<close>, are failures.
\<close>

theorem document_grammar:
  "((\<exists>e. read_conll_document s = Inl e) \<longleftrightarrow>
      fst (read_conll_chunk s) \<noteq> EndFile \<and> (\<nexists>d segs r. conforming s d segs r))
   \<and> (conforming s d segs r \<longrightarrow> read_conll_document s = Inr (Some (d, segs), r))
   \<and> (fst (read_conll_chunk s) = EndFile \<longrightarrow>
        read_conll_document s = Inr (None, snd (read_conll_chunk s)))
   \<and> (\<forall>e. read_conll_document s = Inl e \<longrightarrow> (\<exists>c. e = UnexpectedChunk c))"
proof (intro conjI)
  show "(\<exists>e. read_conll_document s = Inl e) \<longleftrightarrow>
      fst (read_conll_chunk s) \<noteq> EndFile \<and> (\<nexists>d segs r. conforming s d segs r)"
  proof
    assume "\<exists>e. read_conll_document s = Inl e"
    then obtain e where e: "read_conll_document s = Inl e" ..
    have "fst (read_conll_chunk s) \<noteq> EndFile"
      using e read_conll_document_exhausted [of s "snd (read_conll_chunk s)"]
      by (cases "read_conll_chunk s") auto
    moreover have "\<nexists>d segs r. conforming s d segs r"
      using e read_conll_document_complete by fastforce
    ultimately show "fst (read_conll_chunk s) \<noteq> EndFile \<and> (\<nexists>d segs r. conforming s d segs r)" ..
  next
    assume a: "fst (read_conll_chunk s) \<noteq> EndFile \<and> (\<nexists>d segs r. conforming s d segs r)"
    show "\<exists>e. read_conll_document s = Inl e"
    proof (cases "read_conll_document s")
      case (Inl e)
      then show ?thesis by blast
    next
      case (Inr res)
      obtain opt r where res: "res = (opt, r)" by (cases res)
      show ?thesis
      proof (cases opt)
        case None
        with Inr res a read_conll_document_exhausted [of s r] show ?thesis by simp
      next
        case (Some p)
        obtain d segs where "p = (d, segs)" by (cases p)
        with Inr res Some a read_conll_document_sound [of s d segs r] show ?thesis by blast
      qed
    qed
  qed
next
  show "conforming s d segs r \<longrightarrow> read_conll_document s = Inr (Some (d, segs), r)"
    using read_conll_document_complete by blast
next
  show "fst (read_conll_chunk s) = EndFile \<longrightarrow>
        read_conll_document s = Inr (None, snd (read_conll_chunk s))"
    using read_conll_document_exhausted [of s "snd (read_conll_chunk s)"]
    by (cases "read_conll_chunk s") auto
next
  show "\<forall>e. read_conll_document s = Inl e \<longrightarrow> (\<exists>c. e = UnexpectedChunk c)"
    using read_conll_document_error by blast
qed

lemmas reader_defs =
  read_conll_document_def read_conll_chunk_def readline_def startswith_def
  py_strip_def is_space_def collect_segments.simps


theorem document_grammar_witness:
  "conforming [''#begin document a'', ''t 0 0 w -'', '' '', ''#end document''] ''a''
      [Segment [''t 0 0 w -'']] []
   \<and> read_conll_document [''#begin document a'', ''t 0 0 w -'', '' '', ''#end document'']
       = Inr (Some (''a'', [Segment [''t 0 0 w -'']]), [])
   \<and> fst (read_conll_chunk ['' '', ''x'']) = EndFile
   \<and> read_conll_document ['' '', ''x''] = Inr (None, [''x''])
   \<and> read_conll_document [''#begin document a'', ''#begin document b'']
       = Inl (UnexpectedChunk (BeginDocument ''b''))
   \<and> read_conll_document [''#begin document a'', ''t 0 0 w -'']
       = Inl (UnexpectedChunk EndFile)"
proof -
  have h1: "conforming [''#begin document a'', ''t 0 0 w -'', '' '', ''#end document''] ''a''
      [Segment [''t 0 0 w -'']] []"
    by (simp add: conforming_def reader_defs numeral_3_eq_3)
  have h2: "fst (read_conll_chunk ['' '', ''x'']) = EndFile"
    by (simp add: reader_defs)
  have h3: "snd (read_conll_chunk ['' '', ''x'']) = [''x'']"
    by (simp add: reader_defs)
  have h4: "read_conll_document [''#begin document a'', ''#begin document b'']
       = Inl (UnexpectedChunk (BeginDocument ''b''))"
    by (simp add: reader_defs)
  have h5: "read_conll_document [''#begin document a'', ''t 0 0 w -'']
       = Inl (UnexpectedChunk EndFile)"
    by (simp add: reader_defs)
  show ?thesis
    using h1 h2 h3 h4 h5
      document_grammar [of "[''#begin document a'', ''t 0 0 w -'', '' '', ''#end document'']"
        "''a''" "[Segment [''t 0 0 w -'']]" "[]"]
      document_grammar [of "['' '', ''x'']"]
    by simp
qed

section \<open>The corpus iterator\<close>

subsection \<open>Termination\<close>

lemma read_segment_lines_length:
  "length (snd (read_segment_lines s)) \<le> length s"
  by (induction s) (auto split: prod.splits)

lemma read_conll_chunk_progress:
  "length (snd (read_conll_chunk s)) < length s \<or> (s = [] \<and> read_conll_chunk s = (EndFile, []))"
proof (cases s)
  case Nil
  then show ?thesis by (simp add: read_conll_chunk_def readline_def py_strip_def)
next
  case (Cons l t)
  with read_segment_lines_length [of t] show ?thesis
    by (auto simp: read_conll_chunk_def readline_def split: prod.splits)
qed

lemma read_conll_chunk_length:
  "read_conll_chunk s = (c, r) \<Longrightarrow> length r \<le> length s"
  using read_conll_chunk_progress [of s] by auto

lemma read_conll_chunk_consumes:
  "read_conll_chunk s = (c, r) \<Longrightarrow> c \<noteq> EndFile \<Longrightarrow> length r < length s"
  using read_conll_chunk_progress [of s] by auto

lemma collect_segments_length:
  "collect_segments c0 acc s = (c, chunks, r) \<Longrightarrow> length r \<le> length s"
proof (induction c0 acc s rule: collect_segments.induct)
  case (1 nextchunk chunks0 s)
  show ?case
  proof (cases "conll_type nextchunk = ''segment''")
    case False
    with "1.prems" show ?thesis
      by (subst (asm) collect_segments.simps) simp
  next
    case True
    obtain c1 r1 where rd: "read_conll_chunk s = (c1, r1)" by (cases "read_conll_chunk s")
    from "1.prems" True rd have "collect_segments c1 (chunks0 @ [nextchunk]) r1 = (c, chunks, r)"
      by (subst (asm) collect_segments.simps) simp
    from "1.IH" [OF True rd [symmetric] this] read_conll_chunk_length [OF rd]
    show ?thesis by simp
  qed
qed

lemma read_conll_document_consumes:
  assumes "read_conll_document s = Inr (Some p, r)"
  shows "length r < length s"
proof -
  obtain c1 s1 where r1: "read_conll_chunk s = (c1, s1)" by (cases "read_conll_chunk s")
  obtain c2 s2 where r2: "read_conll_chunk s1 = (c2, s2)" by (cases "read_conll_chunk s1")
  obtain c chunks s3 where col: "collect_segments c2 [] s2 = (c, chunks, s3)"
    by (cases "collect_segments c2 [] s2")
  from assms r1 r2 col have "c1 \<noteq> EndFile" and "s3 = r"
    by (auto simp: read_conll_document_def split: if_splits ConllChunk.splits)
  with read_conll_chunk_consumes [OF r1] read_conll_chunk_length [OF r2]
    collect_segments_length [OF col]
  show ?thesis by simp
qed

lemma read_conll_file_terminates:
  "\<exists>docs err. read_conll_file s = Some (docs, err)"
proof (induction s rule: length_induct)
  case (1 s)
  show ?case
  proof (cases "read_conll_document s")
    case (Inl e)
    then show ?thesis by (subst read_conll_file.simps) simp
  next
    case (Inr res)
    obtain opt r where res: "res = (opt, r)" by (cases res)
    show ?thesis
    proof (cases opt)
      case None
      with Inr res show ?thesis by (subst read_conll_file.simps) simp
    next
      case (Some p)
      obtain d chunks where p: "p = (d, chunks)" by (cases p)
      show ?thesis
      proof (cases "process_chunks chunks")
        case (Inl e)
        with Inr res Some p show ?thesis by (subst read_conll_file.simps) simp
      next
        case sents: (Inr sents)
        have "length r < length s"
          using read_conll_document_consumes Inr res Some by blast
        with 1 obtain docs err where "read_conll_file r = Some (docs, err)" by blast
        with Inr res Some p sents show ?thesis
          by (subst read_conll_file.simps) (simp add: push_document_def)
      qed
    qed
  qed
qed

lemma read_conll_chunk_blank:
  "at_end_or_blank s \<Longrightarrow> fst (read_conll_chunk s) = EndFile"
  by (cases s) (simp_all add: at_end_or_blank_def read_conll_chunk_def readline_def py_strip_def)

text \<open>
  Claim C10. On every finite stream the corpus iterator terminates: the generator comes
  to its end, exhausted or with an exception. A call of the chunk reader consumes at
  least one line, or is at the end of the stream, where it returns the end of the input;
  it returns the end of the input also on a blank line. When the assembler reads the end
  of the input first, it returns the sentinel, and the iteration stops without a document.
\<close>

theorem corpus_iterator_terminates:
  "(\<exists>docs err. read_conll_file s = Some (docs, err))
   \<and> (length (snd (read_conll_chunk s)) < length s \<or> (s = [] \<and> read_conll_chunk s = (EndFile, [])))
   \<and> (at_end_or_blank s \<longrightarrow> fst (read_conll_chunk s) = EndFile)
   \<and> (fst (read_conll_chunk s) = EndFile \<longrightarrow>
        read_conll_document s = Inr (None, snd (read_conll_chunk s))
        \<and> read_conll_file s = Some ([], None))"
proof (intro conjI impI)
  show "\<exists>docs err. read_conll_file s = Some (docs, err)"
    by (rule read_conll_file_terminates)
  show "length (snd (read_conll_chunk s)) < length s \<or> (s = [] \<and> read_conll_chunk s = (EndFile, []))"
    by (rule read_conll_chunk_progress)
  show "fst (read_conll_chunk s) = EndFile" if "at_end_or_blank s"
    using that by (rule read_conll_chunk_blank)
  assume eof: "fst (read_conll_chunk s) = EndFile"
  then show doc: "read_conll_document s = Inr (None, snd (read_conll_chunk s))"
    by (cases "read_conll_chunk s") (simp add: read_conll_document_def)
  then show "read_conll_file s = Some ([], None)"
    by (subst read_conll_file.simps) simp
qed

theorem corpus_iterator_terminates_witness:
  "at_end_or_blank [] \<and> at_end_or_blank [''  '', ''x'']
   \<and> fst (read_conll_chunk [''  '', ''x'']) = EndFile
   \<and> read_conll_document [''  '', ''x''] = Inr (None, [''x''])
   \<and> read_conll_file [''  '', ''x''] = Some ([], None)
   \<and> read_conll_file [] = Some ([], None)"
proof -
  have h1: "at_end_or_blank []"
    by (simp add: at_end_or_blank_def)
  have h2: "at_end_or_blank [''  '', ''x'']"
    by (simp add: at_end_or_blank_def py_strip_def is_space_def)
  have h3: "snd (read_conll_chunk [''  '', ''x'']) = [''x'']"
    by (simp add: reader_defs)
  show ?thesis
    using h1 h2 h3 corpus_iterator_terminates [of "[]"] corpus_iterator_terminates [of "[''  '', ''x'']"]
    by simp
qed

subsection \<open>Well-formed streams\<close>

lemma py_strip_Nil_iff: "py_strip s = [] \<longleftrightarrow> (\<forall>c\<in>set s. is_space c)"
proof -
  have "(\<forall>x\<in>set (dropWhile is_space s). is_space x) \<longleftrightarrow> dropWhile is_space s = []"
    using hd_dropWhile [of is_space s]
    by (cases "dropWhile is_space s") (auto dest: set_dropWhileD)
  then show ?thesis
    by (simp add: py_strip_def)
qed

lemma begin_marker_nonblank: "startswith l ''#begin document'' \<Longrightarrow> py_strip l \<noteq> []"
  by (cases l) (auto simp: startswith_def py_strip_Nil_iff is_space_def)

lemma end_marker_nonblank: "startswith l ''#end document'' \<Longrightarrow> py_strip l \<noteq> []"
  by (cases l) (auto simp: startswith_def py_strip_Nil_iff is_space_def)

lemma end_marker_not_begin:
  "startswith l ''#end document'' \<Longrightarrow> \<not> startswith l ''#begin document''"
  by (cases l; cases "tl l") (auto simp: startswith_def)

lemma read_conll_chunk_begin:
  "startswith hdr ''#begin document'' \<Longrightarrow>
   read_conll_chunk (hdr # rest) = (BeginDocument (py_strip (drop (length ''#begin document'') hdr)), rest)"
  using begin_marker_nonblank [of hdr] by (simp add: read_conll_chunk_def readline_def)

lemma read_conll_chunk_end:
  "startswith ftr ''#end document'' \<Longrightarrow> read_conll_chunk (ftr # rest) = (EndDocument, rest)"
  using end_marker_nonblank [of ftr] end_marker_not_begin [of ftr]
  by (simp add: read_conll_chunk_def readline_def)

lemma read_segment_lines_run:
  "list_all (\<lambda>l. py_strip l \<noteq> []) ls \<Longrightarrow> py_strip blank = [] \<Longrightarrow>
   read_segment_lines (ls @ blank # rest) = (map py_strip ls, rest)"
  by (induction ls) simp_all

lemma read_conll_chunk_segment:
  assumes "wf_segment seg"
  shows "read_conll_chunk (render_segment seg @ rest) = (segment_chunk seg, rest)"
proof -
  obtain ls blank where seg: "seg = (ls, blank)" by (cases seg)
  with assms obtain l ls' where ls: "ls = l # ls'" by (cases ls) auto
  from assms seg ls have "read_segment_lines (ls' @ blank # rest) = (map py_strip ls', rest)"
    by (intro read_segment_lines_run) simp_all
  with assms seg ls show ?thesis
    by (simp add: read_conll_chunk_def readline_def)
qed

lemma collect_segments_rendered:
  "list_all wf_segment segs \<Longrightarrow> startswith ftr ''#end document'' \<Longrightarrow>
   (case read_conll_chunk (concat (map render_segment segs) @ ftr # rest) of
      (c, r) \<Rightarrow> collect_segments c acc r)
     = (EndDocument, acc @ map segment_chunk segs, rest)"
proof (induction segs arbitrary: acc)
  case Nil
  then show ?case
    by (simp add: read_conll_chunk_end collect_segments.simps)
next
  case (Cons seg segs)
  obtain ls blank where seg: "seg = (ls, blank)" by (cases seg)
  from Cons.prems have wf: "wf_segment seg" and wfs: "list_all wf_segment segs" by simp_all
  have rd: "read_conll_chunk (render_segment seg @ concat (map render_segment segs) @ ftr # rest)
      = (segment_chunk seg, concat (map render_segment segs) @ ftr # rest)"
    by (rule read_conll_chunk_segment [OF wf])
  have ty: "conll_type (segment_chunk seg) = ''segment''"
    using seg by simp
  have "collect_segments (segment_chunk seg) acc (concat (map render_segment segs) @ ftr # rest)
      = (EndDocument, (acc @ [segment_chunk seg]) @ map segment_chunk segs, rest)"
    using Cons.IH [OF wfs Cons.prems(2), of "acc @ [segment_chunk seg]"] ty
    by (subst collect_segments.simps) simp
  with rd show ?case by simp
qed

lemma read_conll_document_rendered:
  assumes "wf_document d"
  shows "read_conll_document (render_document d @ rest)
           = Inr (Some (document_id d, document_chunks d), rest)"
proof -
  obtain hdr segs ftr where d: "d = (hdr, segs, ftr)" by (cases d)
  from assms d have h: "startswith hdr ''#begin document''" and s: "list_all wf_segment segs"
    and f: "startswith ftr ''#end document''"
    by simp_all
  obtain c r where rd: "read_conll_chunk (concat (map render_segment segs) @ ftr # rest) = (c, r)"
    by (cases "read_conll_chunk (concat (map render_segment segs) @ ftr # rest)")
  have "collect_segments c [] r = (EndDocument, [] @ map segment_chunk segs, rest)"
    using collect_segments_rendered [OF s f, where rest = rest and acc = "[]"] rd by simp
  then show ?thesis
    using d rd read_conll_chunk_begin [OF h]
    by (simp add: read_conll_document_def)
qed

text \<open>
  Claim C4. On every well-formed stream of \<open>N\<close> documents, each opened by a begin
  line and closed by an end line and with segments that the decoder accepts, the corpus
  iterator yields exactly \<open>N\<close> documents, the document of each begin and end pair in
  the order of the stream, and then stops without an exception.
\<close>

theorem corpus_iterator_yields_documents:
  assumes "list_all2 (\<lambda>d sents. wf_document d \<and> process_chunks (document_chunks d) = Inr sents)
             docs sentss"
  shows "read_conll_file (render_stream docs)
           = Some (map2 (\<lambda>d sents. process_conll_document (document_id d) sents) docs sentss, None)
         \<and> length (map2 (\<lambda>d sents. process_conll_document (document_id d) sents) docs sentss)
             = length docs"
  using assms
proof (induction docs sentss rule: list_all2_induct)
  case Nil
  have "read_conll_document [] = Inr (None, [])"
    by (simp add: read_conll_document_def read_conll_chunk_def readline_def py_strip_def)
  then show ?case
    by (subst read_conll_file.simps) (simp add: render_stream_def)
next
  case (Cons d docs sents sentss)
  from Cons.hyps(1) have wf: "wf_document d" and dec: "process_chunks (document_chunks d) = Inr sents"
    by simp_all
  have "read_conll_document (render_stream (d # docs))
      = Inr (Some (document_id d, document_chunks d), render_stream docs)"
    using read_conll_document_rendered [OF wf, of "render_stream docs"]
    by (simp add: render_stream_def)
  then show ?case
    using dec Cons.IH
    by (subst read_conll_file.simps) (simp add: push_document_def)
qed


theorem corpus_iterator_yields_documents_witness:
  "list_all2 (\<lambda>d sents. wf_document d \<and> process_chunks (document_chunks d) = Inr sents)
     [(''#begin document a'', [([''t 0 0 -LRB- (1)'', ''t 0 1 b -''], '' ''), ([''t 0 0 c (1)''], ''  '')], ''#end document''),
      (''#begin document b'', [], ''#end document'')]
     [[\<lparr>tokens = [''('', ''b''], references = [(1, 0, 0)]\<rparr>, \<lparr>tokens = [''c''], references = [(1, 0, 0)]\<rparr>], []]
   \<and> read_conll_file
       [''#begin document a'', ''t 0 0 -LRB- (1)'', ''t 0 1 b -'', '' '', ''t 0 0 c (1)'', ''  '', ''#end document'',
        ''#begin document b'', ''#end document'']
       = Some ([\<lparr>doc_id = ''a'', doc_tokens = [[''('', ''b''], [''c'']], mentions = [[(0, 0, 0), (1, 0, 0)]]\<rparr>,
                \<lparr>doc_id = ''b'', doc_tokens = [], mentions = []\<rparr>], None)"
proof -
  have h: "list_all2 (\<lambda>d sents. wf_document d \<and> process_chunks (document_chunks d) = Inr sents)
     [(''#begin document a'', [([''t 0 0 -LRB- (1)'', ''t 0 1 b -''], '' ''), ([''t 0 0 c (1)''], ''  '')], ''#end document''),
      (''#begin document b'', [], ''#end document'')]
     [[\<lparr>tokens = [''('', ''b''], references = [(1, 0, 0)]\<rparr>, \<lparr>tokens = [''c''], references = [(1, 0, 0)]\<rparr>], []]"
    by (simp add: decoder_defs)
  show ?thesis
    using h corpus_iterator_yields_documents [OF h]
    by (simp add: render_stream_def process_conll_document_def py_strip_def is_space_def)
qed

end
